theory Spec2Isabelle
  imports Complex_Main "HOL-Library.Word" "HOL-Library.Multiset"
begin

unbundle bit_operations_syntax

section \<open>The multicore runtime definitions (rts/c/multicore_defs.h)\<close>

text \<open>
  The C types of the header on the usual LP64 targets: \<open>int\<close>, \<open>unsigned int\<close> and
  \<open>int32_t\<close> are 32-bit words, \<open>int64_t\<close> and \<open>uint64_t\<close> are 64-bit words (signed
  values are read with \<open>sint\<close>, unsigned ones with \<open>uint\<close> or \<open>unat\<close>), and \<open>float\<close> is
  an IEEE 754 binary32 value, kept as its 32-bit pattern.
\<close>

type_synonym c_int = "32 word"
type_synonym c_uint = "32 word"
type_synonym int32_t = "32 word"
type_synonym int64_t = "64 word"
type_synonym uint64_t = "64 word"
type_synonym c_float = "32 word"

subsection \<open>The pseudo-random generator\<close>

text \<open>
  The file-level variables \<open>scheduler_error\<close> and \<open>g_seed\<close> (\<open>kappa\<close> is never assigned
  in the header and is left out). The record is extensible, so every statement about it
  also covers a program state with further variables.
\<close>

record globals =
  scheduler_error :: c_int
  g_seed :: c_uint

text \<open>\<open>fast_srand\<close>: \<open>g_seed = seed\<close>; the conversion from \<open>int\<close> keeps the bits.\<close>

definition fast_srand :: "c_int \<Rightarrow> 'a globals_scheme \<Rightarrow> 'a globals_scheme" where
  "fast_srand seed s = s\<lparr>g_seed := seed\<rparr>"

text \<open>
  \<open>fast_rand\<close>: \<open>g_seed = (214013*g_seed+2531011); return (g_seed>>16)&0x7FFF;\<close>
  The arithmetic is \<open>unsigned int\<close> arithmetic, modulo \<open>2^32\<close>. The result is the
  returned \<open>int\<close> together with the updated state.
\<close>

definition fast_rand :: "'a globals_scheme \<Rightarrow> c_int \<times> 'a globals_scheme" where
  "fast_rand s =
     (let g = 214013 * g_seed s + 2531011
      in (drop_bit 16 g AND 0x7FFF, s\<lparr>g_seed := g\<rparr>))"

text \<open>\<open>n\<close> calls of \<open>fast_rand\<close> one after the other: the outputs in order, and the final state.\<close>

fun fast_rand_calls :: "nat \<Rightarrow> 'a globals_scheme \<Rightarrow> c_int list \<times> 'a globals_scheme" where
  "fast_rand_calls 0 s = ([], s)"
| "fast_rand_calls (Suc n) s =
     (let (r, s') = fast_rand s; (rs, s'') = fast_rand_calls n s' in (r # rs, s''))"

subsection \<open>Bit fields\<close>

text \<open>
  \<open>pick_bits\<close>. Shifting a 64-bit value by a negative amount or by 64 or more is
  undefined in C: the model returns \<open>None\<close> there. The shift right is the logical one
  of \<open>uint64_t\<close>, the shift left of \<open>mask\<close> drops the bits that leave the word, and the
  result converted back to \<open>int64_t\<close> has the same bits.
\<close>

definition pick_bits :: "c_int \<Rightarrow> c_int \<Rightarrow> int64_t \<Rightarrow> int64_t option" where
  "pick_bits lsb sz val =
     (if sint lsb < 0 \<or> 64 \<le> sint lsb then None
      else let v = drop_bit (nat (sint lsb)) val
           in if sint sz < 64
              then (if sint sz < 0 then None
                    else let mask = push_bit (nat (sint sz)) (1 :: uint64_t) - 1
                         in Some (v AND mask))
              else Some v)"

subsection \<open>The type \<open>float\<close>\<close>

text \<open>
  A \<open>float\<close> is an IEEE 754 binary32 pattern: bit 31 is the sign, bits 23 to 30 the
  biased exponent, bits 0 to 22 the fraction. Exponent 255 encodes the infinities and the
  NaNs; exponent 0 the zeros and the subnormal numbers.
\<close>

definition float_sign :: "c_float \<Rightarrow> bool" where
  "float_sign x = bit x 31"

definition float_exponent :: "c_float \<Rightarrow> nat" where
  "float_exponent x = unat (take_bit 8 (drop_bit 23 x))"

definition float_fraction :: "c_float \<Rightarrow> nat" where
  "float_fraction x = unat (take_bit 23 x)"

text \<open>The pattern with sign \<open>s\<close>, biased exponent \<open>e < 256\<close> and fraction \<open>f < 2 ^ 23\<close>.\<close>

definition float_pack :: "bool \<Rightarrow> nat \<Rightarrow> nat \<Rightarrow> c_float" where
  "float_pack s e f = word_of_nat ((if s then 2 ^ 31 else 0) + e * 2 ^ 23 + f)"

definition float_finite :: "c_float \<Rightarrow> bool" where
  "float_finite x = (float_exponent x < 255)"

definition float_is_nan :: "c_float \<Rightarrow> bool" where
  "float_is_nan x = (float_exponent x = 255 \<and> float_fraction x \<noteq> 0)"

text \<open>The significand as a natural number, with the hidden bit of a normal number.\<close>

definition float_significand :: "c_float \<Rightarrow> nat" where
  "float_significand x =
     (if float_exponent x = 0 then float_fraction x else 2 ^ 23 + float_fraction x)"

text \<open>
  The number a finite pattern stands for:
  \<open>\<plusminus> significand * 2 ^ (max 1 exponent - 150)\<close>.
\<close>

definition float_val :: "c_float \<Rightarrow> real" where
  "float_val x =
     (if float_sign x then - 1 else 1) * real (float_significand x)
       * 2 powi (int (max 1 (float_exponent x)) - 150)"

text \<open>
  The operator \<open>==\<close> on \<open>float\<close>: a NaN equals nothing, the two zeros are equal, and
  otherwise the patterns have to agree.
\<close>

definition float_eq :: "c_float \<Rightarrow> c_float \<Rightarrow> bool" where
  "float_eq a b =
     (\<not> float_is_nan a \<and> \<not> float_is_nan b
      \<and> (a = b \<or> (take_bit 31 a = 0 \<and> take_bit 31 b = 0)))"

text \<open>
  The cast \<open>(int32_t)C\<close> of a \<open>float\<close>: the fractional part is discarded (truncation
  toward zero); the behaviour is undefined (\<open>None\<close>) when \<open>C\<close> is an infinity or a NaN
  or when the integral part does not fit in \<open>int32_t\<close>.
\<close>

definition float_integral_part :: "c_float \<Rightarrow> nat" where
  "float_integral_part x =
     (let m = float_significand x; e = max 1 (float_exponent x)
      in if 150 \<le> e then m * 2 ^ (e - 150) else m div 2 ^ (150 - e))"

definition float_to_int32 :: "c_float \<Rightarrow> int32_t option" where
  "float_to_int32 x =
     (if \<not> float_finite x then None
      else let mag = float_integral_part x
           in if float_sign x
              then (if mag \<le> 2 ^ 31 then Some (- word_of_nat mag) else None)
              else (if mag < 2 ^ 31 then Some (word_of_nat mag) else None))"

text \<open>Truncation toward zero on the real numbers, to state what the cast computes.\<close>

definition trunc_toward_zero :: "real \<Rightarrow> int" where
  "trunc_toward_zero x = (if x < 0 then \<lceil>x\<rceil> else \<lfloor>x\<rfloor>)"

text \<open>The number of binary digits of a natural number: \<open>bit_width 0 = 0\<close>, \<open>bit_width 5 = 3\<close>.\<close>

fun bit_width :: "nat \<Rightarrow> nat" where
  "bit_width n = (if n = 0 then 0 else Suc (bit_width (n div 2)))"

declare bit_width.simps [simp del]

text \<open>
  The cast \<open>(float)x\<close> of an \<open>int64_t\<close>: the nearest \<open>float\<close>, a tie going to the
  neighbour with an even significand (the default rounding of IEEE 754 arithmetic). A
  magnitude \<open>a\<close> of at most 24 binary digits is kept as it is; a longer one loses its low
  \<open>k - 23\<close> digits and is rounded on them. Zero becomes \<open>+0.0\<close>, and no \<open>int64_t\<close> is
  out of the range of \<open>float\<close>.

  \<open>round_significand a k\<close>, for \<open>a\<close> with leading digit at position \<open>k\<close>, is the
  24-digit significand and the biased exponent of the result.
\<close>

definition round_significand :: "nat \<Rightarrow> nat \<Rightarrow> nat \<times> nat" where
  "round_significand a k =
     (if k \<le> 23 then (a * 2 ^ (23 - k), 127 + k)
      else let sh = k - 23;
               q0 = a div 2 ^ sh;
               r = a mod 2 ^ sh;
               half = 2 ^ (sh - 1);
               q1 = (if half < r \<or> (r = half \<and> odd q0) then q0 + 1 else q0)
           in if q1 = 2 ^ 24 then (2 ^ 23, 127 + k + 1) else (q1, 127 + k))"

definition nat_to_float :: "bool \<Rightarrow> nat \<Rightarrow> c_float" where
  "nat_to_float s a =
     (if a = 0 then 0
      else let (q, e) = round_significand a (bit_width a - 1)
           in float_pack s e (q - 2 ^ 23))"

definition int64_to_float :: "int64_t \<Rightarrow> c_float" where
  "int64_to_float x = nat_to_float (sint x < 0) (nat \<bar>sint x\<bar>)"

subsection \<open>The packed pair of \<open>C\<close> and \<open>nmax\<close>\<close>

text \<open>
  \<open>pack_vals\<close>: \<open>int64_t nmax_64_shifted = (int64_t) nmax << 32;
  return nmax_64_shifted | (int32_t)C;\<close>
  The conversion of \<open>nmax\<close> to \<open>int64_t\<close> extends its sign, and so does the promotion
  of \<open>(int32_t)C\<close> to the 64-bit type of the \<open>|\<close>. The shift left is the two's
  complement one that compilers implement, also for a negative \<open>nmax\<close>. The result is
  \<open>None\<close> where the cast of \<open>C\<close> is undefined.
\<close>

definition pack_vals :: "c_float \<Rightarrow> int32_t \<Rightarrow> int64_t option" where
  "pack_vals C nmax =
     (let nmax_64_shifted = push_bit 32 (scast nmax :: int64_t)
      in case float_to_int32 C of
           None \<Rightarrow> None
         | Some c \<Rightarrow> Some (nmax_64_shifted OR scast c))"

text \<open>\<open>get_C\<close>: \<open>return (float)pick_bits(0, 32, val);\<close>\<close>

definition get_C :: "int64_t \<Rightarrow> c_float option" where
  "get_C val = map_option int64_to_float (pick_bits 0 32 val)"

text \<open>
  \<open>get_nmax\<close>: \<open>return (int32_t)pick_bits(32, 32, val);\<close>
  The conversion to \<open>int32_t\<close> keeps the low 32 bits.
\<close>

definition get_nmax :: "int64_t \<Rightarrow> int32_t option" where
  "get_nmax val = map_option ucast (pick_bits 32 32 val)"

section \<open>The deque declared by the header\<close>

text \<open>
  The header declares \<open>struct deque\<close>; the functions that operate on it are in other
  files of the runtime. The operations below are therefore taken from the specification
  of the runtime, and marked as such.
\<close>

subsection \<open>The deque of a worker\<close>

text \<open>
  \<open>struct deque\<close>: capacity \<open>size\<close>, \<open>buffer\<close>, the indices \<open>top\<close> and \<open>bottom\<close>, and the
  \<open>dead\<close> flag. The buffer is kept as the list of the live elements, the oldest (the one
  at \<open>top\<close>) first; the slots outside \<open>[top, bottom)\<close> hold nothing of interest.
\<close>

record 'a deque =
  dq_size :: nat
  dq_buffer :: "'a list"
  dq_top :: nat
  dq_bottom :: nat
  dq_dead :: bool

datatype 'a deque_op = Push_bottom 'a | Pop_bottom | Steal bool | Mark_dead

datatype 'a deque_result = Pushed | Shutdown | Taken 'a | Nothing

definition empty_deque :: "nat \<Rightarrow> 'a deque" where
  "empty_deque n = \<lparr>dq_size = n, dq_buffer = [], dq_top = 0, dq_bottom = 0, dq_dead = False\<rparr>"

text \<open>
  Modelled from the spec: the operations of the deque (not in the header), each taken as
  one atomic step, so that an interleaving of the owner and the thieves is a sequence of
  operations.
  \<^item> \<open>push_bottom\<close> fails with \<open>Shutdown\<close> on a dead deque; otherwise it stores the
    subtask at \<open>bottom\<close>, after doubling the capacity when the buffer is full.
  \<^item> \<open>pop_bottom\<close> returns the subtask pushed last, or nothing when the deque is empty.
  \<^item> \<open>steal\<close> returns the oldest subtask, or nothing when the deque is empty or when
    it loses a race with the owner; \<open>Steal won\<close> carries whether the thief wins.
  \<^item> \<open>mark_dead\<close> sets the flag; pops and steals still drain the deque afterwards.
\<close>

fun deque_step :: "'a deque \<Rightarrow> 'a deque_op \<Rightarrow> 'a deque_result \<times> 'a deque" where
  "deque_step q (Push_bottom x) =
     (if dq_dead q then (Shutdown, q)
      else (Pushed,
            q\<lparr>dq_size := (if length (dq_buffer q) = dq_size q then 2 * dq_size q else dq_size q),
              dq_buffer := dq_buffer q @ [x],
              dq_bottom := Suc (dq_bottom q)\<rparr>))"
| "deque_step q Pop_bottom =
     (if dq_buffer q = [] then (Nothing, q)
      else (Taken (last (dq_buffer q)),
            q\<lparr>dq_buffer := butlast (dq_buffer q), dq_bottom := dq_bottom q - 1\<rparr>))"
| "deque_step q (Steal won) =
     (if dq_buffer q = [] \<or> \<not> won then (Nothing, q)
      else (Taken (hd (dq_buffer q)),
            q\<lparr>dq_buffer := tl (dq_buffer q), dq_top := Suc (dq_top q)\<rparr>))"
| "deque_step q Mark_dead = (Nothing, q\<lparr>dq_dead := True\<rparr>)"

text \<open>A sequence of operations: the result of each, and the deque at the end.\<close>

fun deque_run :: "'a deque \<Rightarrow> 'a deque_op list \<Rightarrow> 'a deque_result list \<times> 'a deque" where
  "deque_run q [] = ([], q)"
| "deque_run q (op # ops) =
     (let (r, q') = deque_step q op; (rs, q'') = deque_run q' ops in (r # rs, q''))"

text \<open>
  The subtasks that a run pushed (the rejected pushes apart), the ones \<open>pop_bottom\<close>
  returned and the ones \<open>steal\<close> returned, from the operations and their results.
\<close>

fun pushed :: "('a deque_op \<times> 'a deque_result) list \<Rightarrow> 'a list" where
  "pushed [] = []"
| "pushed ((Push_bottom x, Pushed) # es) = x # pushed es"
| "pushed (e # es) = pushed es"

fun popped :: "('a deque_op \<times> 'a deque_result) list \<Rightarrow> 'a list" where
  "popped [] = []"
| "popped ((Pop_bottom, Taken x) # es) = x # popped es"
| "popped (e # es) = popped es"

fun stolen :: "('a deque_op \<times> 'a deque_result) list \<Rightarrow> 'a list" where
  "stolen [] = []"
| "stolen ((Steal won, Taken x) # es) = x # stolen es"
| "stolen (e # es) = stolen es"

section \<open>Properties\<close>

subsection \<open>Words\<close>

lemma sint_eq_uint_small:
  fixes w :: "'a::len word"
  assumes "uint w < 2 ^ (LENGTH('a) - Suc 0)"
  shows "sint w = uint w"
proof -
  have "- (2 ^ (LENGTH('a) - Suc 0)) \<le> uint w"
    by (rule order_trans [of _ 0]) simp_all
  then show ?thesis
    unfolding sint_uint using assms by (rule signed_take_bit_int_eq_self)
qed

lemma uint_drop_bit: "uint (drop_bit n (v :: 'a::len word)) = drop_bit n (uint v)"
  by (metis of_nat_drop_bit of_nat_unat unat_drop_bit_eq)

lemma uint_take_drop:
  "uint (take_bit m (drop_bit n (v :: 'a::len word))) = (uint v div 2 ^ n) mod 2 ^ m"
proof -
  have "uint (take_bit m (drop_bit n v)) = take_bit m (uint (drop_bit n v))"
    by (rule unsigned_take_bit_eq)
  also have "uint (drop_bit n v) = drop_bit n (uint v)"
    by (rule uint_drop_bit)
  finally show ?thesis
    by (simp only: take_bit_eq_mod drop_bit_eq_div)
qed

lemma shifted_one_minus_one: "2 ^ n - (1 :: 'a::len word) = mask n"
  by (simp add: mask_eq_exp_minus_1)

subsection \<open>The generator\<close>

lemma and_7FFF_bounds:
  "0 \<le> sint ((w :: 32 word) AND 0x7FFF) \<and> sint (w AND 0x7FFF) \<le> 32767"
proof -
  have le: "w AND 0x7FFF \<le> 0x7FFF"
    by (rule word_and_le1)
  then have u: "uint (w AND 0x7FFF) \<le> 32767"
    by (simp add: word_le_def)
  then have "sint (w AND 0x7FFF) = uint (w AND 0x7FFF)"
    by (intro sint_eq_uint_small) simp
  with u show ?thesis by simp
qed

text \<open>
  C4. For every value of the generator state \<open>g_seed\<close> (and of the rest of the program
  state), the \<open>int\<close> returned by \<open>fast_rand()\<close> lies in the range [0, 32767].
\<close>

theorem fast_rand_range:
  "0 \<le> sint (fst (fast_rand s)) \<and> sint (fst (fast_rand s)) \<le> 32767"
  using and_7FFF_bounds [of "drop_bit 16 (214013 * g_seed s + 2531011)"]
  by (simp add: fast_rand_def Let_def)

lemma fast_rand_seed_only:
  assumes "g_seed s1 = g_seed s2"
  shows "fst (fast_rand s1) = fst (fast_rand s2)
         \<and> g_seed (snd (fast_rand s1)) = g_seed (snd (fast_rand s2))"
  using assms by (simp add: fast_rand_def Let_def)

lemma fast_rand_calls_seed_only:
  assumes "g_seed s1 = g_seed s2"
  shows "fst (fast_rand_calls n s1) = fst (fast_rand_calls n s2)
         \<and> g_seed (snd (fast_rand_calls n s1)) = g_seed (snd (fast_rand_calls n s2))"
  using assms
proof (induction n arbitrary: s1 s2)
  case 0
  then show ?case by simp
next
  case (Suc n)
  from fast_rand_seed_only [OF Suc.prems]
  have r: "fst (fast_rand s1) = fst (fast_rand s2)"
    and g: "g_seed (snd (fast_rand s1)) = g_seed (snd (fast_rand s2))" by simp_all
  from Suc.IH [OF g] r show ?case
    by (simp add: split_beta Let_def)
qed

text \<open>
  C8. The generator is deterministic. Two program states with equal \<open>g_seed\<close> (they may
  differ in every other variable) give, for one call of \<open>fast_rand()\<close> and for any
  number \<open>n\<close> of calls in a row, equal outputs and equal successor seeds; in particular
  after \<open>fast_srand\<close> with the same seed the outputs are the same whatever the states
  were before. Calls are taken one after the other, as in a single thread.
\<close>

theorem fast_rand_deterministic:
  assumes "g_seed s1 = g_seed s2"
  shows "fst (fast_rand s1) = fst (fast_rand s2)
         \<and> g_seed (snd (fast_rand s1)) = g_seed (snd (fast_rand s2))
         \<and> fst (fast_rand_calls n s1) = fst (fast_rand_calls n s2)
         \<and> g_seed (snd (fast_rand_calls n s1)) = g_seed (snd (fast_rand_calls n s2))
         \<and> fst (fast_rand_calls n (fast_srand seed t1)) = fst (fast_rand_calls n (fast_srand seed t2))"
proof -
  have "g_seed (fast_srand seed t1) = g_seed (fast_srand seed t2)"
    by (simp add: fast_srand_def)
  from fast_rand_calls_seed_only [OF this, of n]
    fast_rand_seed_only [OF assms] fast_rand_calls_seed_only [OF assms, of n]
  show ?thesis by simp
qed

theorem fast_rand_deterministic_witness:
  "g_seed \<lparr>scheduler_error = 0, g_seed = 1\<rparr> = g_seed \<lparr>scheduler_error = 7, g_seed = 1\<rparr>
   \<and> fst (fast_rand_calls 3 \<lparr>scheduler_error = 0, g_seed = 1\<rparr>)
       = fst (fast_rand_calls 3 \<lparr>scheduler_error = 7, g_seed = 1\<rparr>)
   \<and> fst (fast_rand_calls 3 \<lparr>scheduler_error = 0, g_seed = 1\<rparr>) = [41, 18467, 6334]"
  using fast_rand_deterministic
    [of "\<lparr>scheduler_error = 0, g_seed = 1\<rparr>" "\<lparr>scheduler_error = 7, g_seed = 1\<rparr>" 3]
  by (simp add: fast_rand_def Let_def numeral_3_eq_3)

subsection \<open>Bit fields\<close>

lemma pick_bits_take_drop:
  assumes "0 \<le> sint lsb" "sint lsb < 64" "0 \<le> sint sz" "sint sz < 64"
  shows "pick_bits lsb sz v = Some (take_bit (nat (sint sz)) (drop_bit (nat (sint lsb)) v))"
  using assms by (simp add: pick_bits_def Let_def shifted_one_minus_one take_bit_eq_mask)

text \<open>
  C9. For every \<open>lsb\<close> in [0, 63], every \<open>sz\<close> with \<open>0 \<le> sz < 64\<close> and every 64-bit
  value, \<open>pick_bits(lsb, sz, value)\<close> returns the value read as unsigned, shifted right by
  \<open>lsb\<close>, modulo \<open>2^sz\<close>; the returned \<open>int64_t\<close> is therefore not negative and below
  \<open>2^sz\<close>.
\<close>

theorem pick_bits_spec:
  assumes "0 \<le> sint lsb" "sint lsb \<le> 63" "0 \<le> sint sz" "sint sz < 64"
  shows "\<exists>r. pick_bits lsb sz v = Some r
           \<and> uint r = (uint v div 2 ^ nat (sint lsb)) mod 2 ^ nat (sint sz)
           \<and> sint r = uint r
           \<and> 0 \<le> sint r \<and> sint r < 2 ^ nat (sint sz)"
proof -
  define n where "n = nat (sint lsb)"
  define m where "m = nat (sint sz)"
  define r where "r = take_bit m (drop_bit n v)"
  have m63: "m \<le> 63" using assms by (simp add: m_def)
  have pb: "pick_bits lsb sz v = Some r"
    using assms by (simp add: pick_bits_take_drop r_def n_def m_def)
  have u: "uint r = (uint v div 2 ^ n) mod 2 ^ m"
    by (simp add: r_def uint_take_drop)
  then have lt: "uint r < 2 ^ m" by simp
  also have "(2 :: int) ^ m \<le> 2 ^ 63"
    using m63 by (intro power_increasing) simp_all
  finally have s: "sint r = uint r"
    by (intro sint_eq_uint_small) simp
  show ?thesis
    using pb u s lt by (simp add: n_def m_def)
qed

theorem pick_bits_spec_witness:
  "0 \<le> sint (4 :: 32 word) \<and> sint (4 :: 32 word) \<le> 63
   \<and> 0 \<le> sint (8 :: 32 word) \<and> sint (8 :: 32 word) < 64
   \<and> pick_bits 4 8 0xABCD = Some 0xBC
   \<and> uint (0xBC :: 64 word)
       = (uint (0xABCD :: 64 word) div 2 ^ nat (sint (4 :: 32 word))) mod 2 ^ nat (sint (8 :: 32 word))"
  using pick_bits_spec [of 4 8 "0xABCD"]
  by (simp add: pick_bits_def)

subsection \<open>The fields of a \<open>float\<close>\<close>

lemma bit_width_bounds:
  "0 < n \<Longrightarrow> 2 ^ (bit_width n - 1) \<le> n \<and> n < 2 ^ bit_width n"
proof (induction n rule: bit_width.induct)
  case (1 n)
  show ?case
  proof (cases "n div 2 = 0")
    case True
    with "1.prems" have "n = 1" by (simp add: div_eq_0_iff) 
    then show ?thesis
      by (simp add: bit_width.simps)
  next
    case False
    then have pos: "0 < n div 2" by simp
    from "1.prems" have n0: "n \<noteq> 0" by simp
    from "1.IH" [OF n0 pos]
    have lo: "2 ^ (bit_width (n div 2) - 1) \<le> n div 2"
      and hi: "n div 2 < 2 ^ bit_width (n div 2)" by simp_all
    have bw: "bit_width n = Suc (bit_width (n div 2))"
      using n0 by (subst bit_width.simps) simp
    have bpos: "0 < bit_width (n div 2)"
      using pos by (subst bit_width.simps) simp
    then have "(2::nat) ^ (bit_width (n div 2)) = 2 * 2 ^ (bit_width (n div 2) - 1)"
      by (cases "bit_width (n div 2)") simp_all
    with lo hi show ?thesis
      unfolding bw by simp linarith
  qed
qed

lemma bit_width_unique:
  assumes "2 ^ k \<le> n" "n < 2 ^ Suc k"
  shows "bit_width n = Suc k"
proof -
  have pos: "0 < n" using assms(1)
    by (metis gr0I not_less_eq_eq power_eq_0_iff le0 zero_neq_numeral le_zero_eq)
  from bit_width_bounds [OF pos]
  have lo: "2 ^ (bit_width n - 1) \<le> n" and hi: "n < 2 ^ bit_width n" by simp_all
  have "(2::nat) ^ k < 2 ^ bit_width n" using assms(1) hi by (rule le_less_trans)
  then have a: "k < bit_width n" by (simp only: power_strict_increasing_iff rel_simps)
  have "(2::nat) ^ (bit_width n - 1) < 2 ^ Suc k" using lo assms(2) by (rule le_less_trans)
  then have "bit_width n - 1 < Suc k" by (simp only: power_strict_increasing_iff rel_simps)
  with a show ?thesis by simp
qed


lemma unat_take_drop:
  "unat (take_bit m (drop_bit n (v :: 'a::len word))) = (unat v div 2 ^ n) mod 2 ^ m"
proof -
  have "unat (take_bit m (drop_bit n v)) = take_bit m (unat (drop_bit n v))"
    by (rule unsigned_take_bit_eq)
  also have "unat (drop_bit n v) = drop_bit n (unat v)"
    by (rule unat_drop_bit_eq)
  finally show ?thesis
    by (simp only: take_bit_eq_mod drop_bit_eq_div)
qed

lemma float_exponent_arith: "float_exponent x = (unat x div 2 ^ 23) mod 2 ^ 8"
  by (simp only: float_exponent_def unat_take_drop)

lemma float_fraction_arith: "float_fraction x = unat x mod 2 ^ 23"
  using unat_take_drop [of 23 0 x] by (simp add: float_fraction_def)

lemma unat_lt_32: "unat (x :: 32 word) < 2 ^ 32"
  using unsigned_less [of x, where 'a = nat] by simp

lemma float_sign_arith: "float_sign x \<longleftrightarrow> 2 ^ 31 \<le> unat x"
proof -
  have "bit x 31 \<longleftrightarrow> bit (unat x) 31"
    by (simp add: bit_unsigned_iff)
  also have "\<dots> \<longleftrightarrow> odd (unat x div 2 ^ 31)"
    by (simp add: bit_iff_odd)
  also have "\<dots> \<longleftrightarrow> 2 ^ 31 \<le> unat x"
  proof
    assume "odd (unat x div 2 ^ 31)"
    then have "unat x div 2 ^ 31 \<noteq> 0" by (metis even_zero)
    then show "2 ^ 31 \<le> unat x" by (simp add: div_eq_0_iff)
  next
    assume a: "2 ^ 31 \<le> unat x"
    have "unat x div 2 ^ 31 = 1"
      using a unat_lt_32 [of x] by simp
    then show "odd (unat x div 2 ^ 31)" by simp
  qed
  finally show ?thesis by (simp add: float_sign_def)
qed

lemma float_exponent_less: "float_exponent x < 256"
  by (simp add: float_exponent_arith)

lemma float_fraction_less: "float_fraction x < 2 ^ 23"
  by (simp add: float_fraction_arith)


lemma split_fields:
  fixes hi mid lo :: nat
  assumes "mid < 2 ^ 8" "lo < 2 ^ 23"
  shows "(hi * 2 ^ 31 + mid * 2 ^ 23 + lo) mod 2 ^ 23 = lo"
    and "((hi * 2 ^ 31 + mid * 2 ^ 23 + lo) div 2 ^ 23) mod 2 ^ 8 = mid"
    and "(hi * 2 ^ 31 + mid * 2 ^ 23 + lo) div 2 ^ 31 = hi"
proof -
  have e: "hi * 2 ^ 31 + mid * 2 ^ 23 + lo = (hi * 2 ^ 8 + mid) * 2 ^ 23 + lo"
    by (simp add: algebra_simps)
  show "(hi * 2 ^ 31 + mid * 2 ^ 23 + lo) mod 2 ^ 23 = lo"
    unfolding e using assms(2) by (simp only: mod_mult_self3 mod_less)
  have d: "(hi * 2 ^ 31 + mid * 2 ^ 23 + lo) div 2 ^ 23 = hi * 2 ^ 8 + mid"
    unfolding e using assms(2) by (simp only: div_mult_self3 div_less)
  show "((hi * 2 ^ 31 + mid * 2 ^ 23 + lo) div 2 ^ 23) mod 2 ^ 8 = mid"
    unfolding d using assms(1) by (simp only: mod_mult_self3 mod_less)
  have "mid * 2 ^ 23 + lo < 2 ^ 31"
  proof -
    have "mid * 2 ^ 23 \<le> (2 ^ 8 - 1) * 2 ^ 23"
      using assms(1) by (intro mult_right_mono) simp_all
    with assms(2) show ?thesis by simp
  qed
  then show "(hi * 2 ^ 31 + mid * 2 ^ 23 + lo) div 2 ^ 31 = hi"
    by (simp only: add.assoc div_mult_self3 div_less)
qed

lemma join_fields:
  fixes u :: nat
  shows "(u div 2 ^ 31) * 2 ^ 31 + ((u div 2 ^ 23) mod 2 ^ 8) * 2 ^ 23 + u mod 2 ^ 23 = u"
proof -
  have "(u div 2 ^ 23) div 2 ^ 8 = u div 2 ^ 31"
    by (simp only: div_mult2_eq [symmetric] power_add [symmetric]) simp
  then have "(u div 2 ^ 31) * 2 ^ 8 + (u div 2 ^ 23) mod 2 ^ 8 = u div 2 ^ 23"
    by (metis div_mult_mod_eq)
  then have "((u div 2 ^ 31) * 2 ^ 8 + (u div 2 ^ 23) mod 2 ^ 8) * 2 ^ 23 + u mod 2 ^ 23 = u"
    by (simp only: div_mult_mod_eq)
  then show ?thesis
    by (simp only: add_mult_distrib mult.assoc power_add [symmetric]) simp
qed

lemma float_sign_hi: "(if float_sign x then 1 else 0) = unat x div 2 ^ 31"
proof (cases "float_sign x")
  case True
  then have "2 ^ 31 \<le> unat x" by (simp only: float_sign_arith)
  then have "unat x div 2 ^ 31 = 1"
    using unat_lt_32 [of x] by simp
  with True show ?thesis by simp
next
  case False
  then have "unat x < 2 ^ 31" by (simp only: float_sign_arith not_le)
  with False show ?thesis by simp
qed

lemma unat_fields:
  "unat x = (if float_sign x then 1 else 0) * 2 ^ 31 + float_exponent x * 2 ^ 23 + float_fraction x"
  by (simp only: float_sign_hi float_exponent_arith float_fraction_arith join_fields)

lemma float_pack_alt:
  "float_pack s e f = word_of_nat ((if s then 1 else 0) * 2 ^ 31 + e * 2 ^ 23 + f)"
  by (simp add: float_pack_def)

lemma unat_float_pack:
  assumes "e < 2 ^ 8" "f < 2 ^ 23"
  shows "unat (float_pack s e f) = (if s then 1 else 0) * 2 ^ 31 + e * 2 ^ 23 + f"
proof -
  define N :: nat where "N = (if s then 1 else 0) * 2 ^ 31 + e * 2 ^ 23 + f"
  have "N div 2 ^ 31 = (if s then 1 else 0)"
    unfolding N_def using assms by (rule split_fields(3))
  then have "N div 2 ^ 31 < 2" by (simp split: if_splits)
  then have "N < 2 ^ 32" by (simp add: div_less_iff_less_mult [symmetric] less_mult_imp_div_less)
  then have "unat (word_of_nat N :: 32 word) = N"
    by (simp add: unat_of_nat)
  then show ?thesis
    by (simp only: float_pack_alt N_def)
qed

lemma float_pack_fields: "float_pack (float_sign x) (float_exponent x) (float_fraction x) = x"
  by (simp only: float_pack_alt unat_fields [symmetric] of_nat_unat ucast_id)

lemma float_sign_pack:
  assumes "e < 2 ^ 8" "f < 2 ^ 23"
  shows "float_sign (float_pack s e f) = s"
proof -
  have "unat (float_pack s e f) div 2 ^ 31 = (if s then 1 else 0)"
    unfolding unat_float_pack [OF assms] using assms by (rule split_fields(3))
  then show ?thesis
    by (simp only: float_sign_hi [symmetric] split: if_splits)
qed

lemma float_exponent_pack:
  assumes "e < 2 ^ 8" "f < 2 ^ 23"
  shows "float_exponent (float_pack s e f) = e"
  unfolding float_exponent_arith unat_float_pack [OF assms] using assms by (rule split_fields(2))

lemma float_fraction_pack:
  assumes "e < 2 ^ 8" "f < 2 ^ 23"
  shows "float_fraction (float_pack s e f) = f"
  unfolding float_fraction_arith unat_float_pack [OF assms] using assms by (rule split_fields(1))

subsection \<open>The two halves of the packed word\<close>

lemma pick_bits_low: "pick_bits 0 32 v = Some (take_bit 32 v)"
  using pick_bits_take_drop [of 0 32 v] by simp

lemma pick_bits_high: "pick_bits 32 32 v = Some (take_bit 32 (drop_bit 32 v))"
  using pick_bits_take_drop [of 32 32 v] by simp

lemma get_C_low: "get_C v = Some (int64_to_float (take_bit 32 v))"
  by (simp add: get_C_def pick_bits_low)

lemma get_nmax_high: "get_nmax v = Some (ucast (drop_bit 32 v))"
proof -
  have "(ucast (take_bit 32 (drop_bit 32 v)) :: 32 word) = ucast (drop_bit 32 v)"
    by (rule bit_word_eqI) (simp add: bit_simps)
  then show ?thesis
    by (simp add: get_nmax_def pick_bits_high)
qed

lemma eq31: "31 \<le> n \<Longrightarrow> n < 32 \<Longrightarrow> n = (31 :: nat)"
  by simp

lemma packed_low:
  fixes nmax c :: "32 word"
  shows "take_bit 32 (push_bit 32 (scast nmax :: 64 word) OR scast c) = ucast c"
proof (rule bit_word_eqI)
  fix n
  assume "n < LENGTH(64)"
  show "bit (take_bit 32 (push_bit 32 (scast nmax :: 64 word) OR scast c)) n
        = bit (ucast c :: 64 word) n"
  proof (cases "n < 32")
    case True
    then show ?thesis by (auto simp add: bit_simps min_def dest: eq31)
  next
    case False
    then have "\<not> bit c n" by (auto dest: bit_imp_le_length)
    with False show ?thesis by (simp add: bit_simps)
  qed
qed

lemma packed_high:
  fixes nmax c :: "32 word"
  assumes "\<not> bit c 31"
  shows "(ucast (drop_bit 32 (push_bit 32 (scast nmax :: 64 word) OR scast c)) :: 32 word) = nmax"
  using assms by (intro bit_word_eqI) (auto simp add: bit_simps min_def dest: bit_imp_le_length eq31)

lemma packed_high_neg:
  fixes nmax c :: "32 word"
  assumes "bit c 31"
  shows "(ucast (drop_bit 32 (push_bit 32 (scast nmax :: 64 word) OR scast c)) :: 32 word) = - 1"
  using assms by (intro bit_word_eqI) (auto simp add: bit_simps min_def dest: bit_imp_le_length eq31)

subsection \<open>The value of a \<open>float\<close> and the cast to \<open>int32_t\<close>\<close>

lemma float_significand_less: "float_significand x < 2 ^ 24"
  using float_fraction_less [of x] by (simp add: float_significand_def)

lemma float_significand_normal:
  "0 < float_exponent x \<Longrightarrow> float_significand x = 2 ^ 23 + float_fraction x"
  by (simp add: float_significand_def)

lemma two_powi_up: "150 \<le> E \<Longrightarrow> (2 :: real) powi (int E - 150) = 2 ^ (E - 150)"
  by (simp add: power_int_def nat_diff_distrib')

lemma two_powi_down: "E < 150 \<Longrightarrow> (2 :: real) powi (int E - 150) = 1 / 2 ^ (150 - E)"
proof -
  assume a: "E < 150"
  then have "nat (150 - int E) = 150 - E" by simp
  with a show ?thesis
    by (simp add: power_int_def inverse_eq_divide power_one_over)
qed

lemma abs_float_val:
  "\<bar>float_val x\<bar> = real (float_significand x) * 2 powi (int (max 1 (float_exponent x)) - 150)"
  by (simp add: float_val_def abs_mult)

lemma float_val_sign:
  "float_val x = (if float_sign x then - \<bar>float_val x\<bar> else \<bar>float_val x\<bar>)"
  by (simp add: float_val_def abs_mult)

lemma float_integral_part_floor: "int (float_integral_part x) = \<lfloor>\<bar>float_val x\<bar>\<rfloor>"
proof -
  define m where "m = float_significand x"
  define E where "E = max 1 (float_exponent x)"
  show ?thesis
  proof (cases "150 \<le> E")
    case True
    have "\<bar>float_val x\<bar> = real m * 2 powi (int E - 150)"
      by (simp only: abs_float_val m_def E_def)
    with True have "\<bar>float_val x\<bar> = real (m * 2 ^ (E - 150))"
      by (simp add: two_powi_up)
    moreover have "float_integral_part x = m * 2 ^ (E - 150)"
      using True by (simp add: float_integral_part_def Let_def m_def E_def)
    ultimately show ?thesis by (simp only: floor_of_nat)
  next
    case False
    have "\<bar>float_val x\<bar> = real m * 2 powi (int E - 150)"
      by (simp only: abs_float_val m_def E_def)
    with False have "\<bar>float_val x\<bar> = real m / real (2 ^ (150 - E))"
      by (simp add: two_powi_down)
    moreover have "float_integral_part x = m div 2 ^ (150 - E)"
      using False by (simp add: float_integral_part_def Let_def m_def E_def)
    ultimately show ?thesis by (simp only: floor_divide_of_nat_eq)
  qed
qed

lemma trunc_toward_zero_abs:
  "trunc_toward_zero x = (if x < 0 then - \<lfloor>\<bar>x\<bar>\<rfloor> else \<lfloor>\<bar>x\<bar>\<rfloor>)"
  by (simp add: trunc_toward_zero_def ceiling_def)

lemma sint_word_of_nat_32: "a < 2 ^ 31 \<Longrightarrow> sint (word_of_nat a :: 32 word) = int a"
proof -
  assume a: "a < 2 ^ 31"
  then have "unat (word_of_nat a :: 32 word) = a"
    by (simp add: unat_of_nat)
  then have u: "uint (word_of_nat a :: 32 word) = int a"
    by (metis of_nat_unat)
  have "uint (word_of_nat a :: 32 word) < 2 ^ (LENGTH(32) - Suc 0)"
    unfolding u using a by simp
  then show ?thesis
    unfolding u [symmetric] by (rule sint_eq_uint_small)
qed

lemma sint_minus_word_of_nat_32:
  assumes "a \<le> 2 ^ 31"
  shows "sint (- word_of_nat a :: 32 word) = - int a"
proof -
  have "sint (- word_of_nat a :: 32 word) = sint (word_of_int (- int a) :: 32 word)"
    by simp
  also have "\<dots> = signed_take_bit 31 (- int a)"
    by (simp only: sint_sbintrunc') simp
  also have "\<dots> = - int a"
    using assms by (intro signed_take_bit_int_eq_self) simp_all
  finally show ?thesis .
qed

text \<open>The cast computes the truncation toward zero of the value.\<close>

lemma float_to_int32_trunc:
  assumes "float_to_int32 x = Some c"
  shows "sint c = trunc_toward_zero (float_val x)"
proof -
  define mag where "mag = float_integral_part x"
  have fl: "int mag = \<lfloor>\<bar>float_val x\<bar>\<rfloor>"
    by (simp only: mag_def float_integral_part_floor)
  show ?thesis
  proof (cases "float_sign x")
    case True
    with assms have c: "c = - word_of_nat mag" and le: "mag \<le> 2 ^ 31"
      by (auto simp add: float_to_int32_def Let_def mag_def split: if_splits)
    have s: "sint c = - int mag"
      unfolding c using le by (rule sint_minus_word_of_nat_32)
    from True have "float_val x \<le> 0"
      by (subst float_val_sign) simp
    then show ?thesis
      unfolding s fl trunc_toward_zero_abs by (cases "float_val x = 0") simp_all 
  next
    case False
    with assms have c: "c = word_of_nat mag" and lt: "mag < 2 ^ 31"
      by (auto simp add: float_to_int32_def Let_def mag_def split: if_splits)
    have s: "sint c = int mag"
      unfolding c using lt by (rule sint_word_of_nat_32)
    from False have "0 \<le> float_val x"
      by (subst float_val_sign) simp
    then show ?thesis
      unfolding s fl trunc_toward_zero_abs by simp
  qed
qed

subsection \<open>Integers that convert exactly\<close>

lemma float_val_pack:
  assumes "e < 2 ^ 8" "f < 2 ^ 23"
  shows "float_val (float_pack s e f)
         = (if s then - 1 else 1) * real (if e = 0 then f else 2 ^ 23 + f)
             * 2 powi (int (max 1 e) - 150)"
  by (simp only: float_val_def float_significand_def
      float_sign_pack [OF assms] float_exponent_pack [OF assms] float_fraction_pack [OF assms])

lemma float_finite_pack:
  assumes "e < 255" "f < 2 ^ 23"
  shows "float_finite (float_pack s e f)"
proof -
  from assms(1) have "e < 2 ^ 8" by simp
  from float_exponent_pack [OF this assms(2)] assms(1) show ?thesis
    by (simp add: float_finite_def)
qed

lemma bit_width_shift:
  assumes "2 ^ 23 \<le> m" "m < 2 ^ 24"
  shows "bit_width (m * 2 ^ j) = 24 + j"
proof -
  have "2 ^ (23 + j) \<le> m * 2 ^ j"
    using assms(1) by (simp add: power_add)
  moreover have "m * 2 ^ j < 2 ^ Suc (23 + j)"
    using assms(2) by (simp add: power_add)
  ultimately have "bit_width (m * 2 ^ j) = Suc (23 + j)"
    by (rule bit_width_unique)
  then show ?thesis by simp
qed

text \<open>A 24-digit significand shifted left is converted exactly.\<close>

lemma round_significand_shifted:
  assumes "m < 2 ^ 24"
  shows "round_significand (m * 2 ^ j) (23 + j) = (m, 150 + j)"
proof (cases j)
  case 0
  then show ?thesis
    by (simp add: round_significand_def)
next
  case (Suc i)
  have m24: "m \<noteq> 2 ^ 24" using assms by simp
  have big: "\<not> 23 + j \<le> 23" using Suc by simp
  have sh: "23 + j - 23 = j" by simp
  have q0: "m * 2 ^ j div 2 ^ j = m" by simp
  have r: "m * 2 ^ j mod 2 ^ j = 0" by simp
  have e: "127 + (23 + j) = 150 + j" by simp
  show ?thesis
    unfolding round_significand_def Let_def sh q0 r e if_not_P [OF big]
    using m24 by simp
qed

lemma nat_to_float_shifted:
  assumes "2 ^ 23 \<le> m" "m < 2 ^ 24"
  shows "nat_to_float s (m * 2 ^ j) = float_pack s (150 + j) (m - 2 ^ 23)"
proof -
  have pos: "m * 2 ^ j \<noteq> 0" using assms(1) by auto
  have k: "bit_width (m * 2 ^ j) - 1 = 23 + j"
    by (simp add: bit_width_shift [OF assms])
  show ?thesis
    unfolding nat_to_float_def k round_significand_shifted [OF assms(2)] using pos by simp
qed

text \<open>A number of at most 24 digits is converted exactly.\<close>

lemma bit_width_le_24:
  assumes "0 < a" "a < 2 ^ 24"
  shows "bit_width a - 1 \<le> 23"
proof -
  from bit_width_bounds [OF assms(1)]
  have lo: "2 ^ (bit_width a - 1) \<le> a" by simp
  have "(2::nat) ^ (bit_width a - 1) < 2 ^ 24"
    using lo assms(2) by (rule le_less_trans)
  then have "bit_width a - 1 < 24"
    by (simp only: power_strict_increasing_iff rel_simps)
  then show ?thesis by simp
qed

lemma nat_to_float_small:
  assumes "0 < a" "a < 2 ^ 24" "k = bit_width a - 1"
  shows "nat_to_float s a = float_pack s (127 + k) (a * 2 ^ (23 - k) - 2 ^ 23)"
proof -
  have k: "k \<le> 23" unfolding assms(3) using assms(1,2) by (rule bit_width_le_24)
  have "round_significand a k = (a * 2 ^ (23 - k), 127 + k)"
    using k by (simp add: round_significand_def)
  then show ?thesis
    unfolding nat_to_float_def assms(3) [symmetric] using assms(1) by simp
qed

lemma float_val_nat_to_float_small:
  assumes "a < 2 ^ 24"
  shows "float_val (nat_to_float False a) = real a" and "float_finite (nat_to_float False a)"
proof -
  have z: "float_val 0 = 0 \<and> float_finite 0"
    by (simp add: float_val_def float_finite_def float_exponent_def
        float_significand_def float_fraction_def)
  have "float_val (nat_to_float False a) = real a \<and> float_finite (nat_to_float False a)"
  proof (cases "a = 0")
    case True
    with z show ?thesis by (simp add: nat_to_float_def)
  next
    case False
    then have pos: "0 < a" by simp
    define k where "k = bit_width a - 1"
    have k: "k \<le> 23" unfolding k_def using pos assms by (rule bit_width_le_24)
    from bit_width_bounds [OF pos]
    have lo: "2 ^ k \<le> a" and hi: "a < 2 ^ bit_width a" by (simp_all add: k_def)
    have bw: "bit_width a = Suc k"
      using pos unfolding k_def by (subst (1 2) bit_width.simps) simp
    define q where "q = a * 2 ^ (23 - k)"
    have qlo: "2 ^ 23 \<le> q"
    proof -
      have "(2::nat) ^ 23 = 2 ^ k * 2 ^ (23 - k)"
        using k by (simp add: power_add [symmetric])
      also have "\<dots> \<le> a * 2 ^ (23 - k)"
        using lo by (rule mult_right_mono) simp
      finally show ?thesis by (simp only: q_def)
    qed
    have qhi: "q < 2 ^ 24"
    proof -
      have "a * 2 ^ (23 - k) < 2 ^ Suc k * 2 ^ (23 - k)"
        using hi unfolding bw by (intro mult_strict_right_mono) simp_all
      also have "\<dots> = 2 ^ 24"
        using k by (simp add: power_add [symmetric] del: power_Suc)
      finally show ?thesis by (simp only: q_def)
    qed
    have r: "nat_to_float False a = float_pack False (127 + k) (q - 2 ^ 23)"
      unfolding q_def using pos assms k_def by (rule nat_to_float_small)
    have e8: "127 + k < 2 ^ 8" using k by simp
    have e255: "127 + k < 255" using k by simp
    have f23: "q - 2 ^ 23 < 2 ^ 23" using qhi by simp
    have "float_val (nat_to_float False a) = real q * 2 powi (int k - 23)"
      unfolding r float_val_pack [OF e8 f23] using qlo
      by (simp add: algebra_simps)
    also have "\<dots> = real a"
    proof -
      have "(2::real) powi (int k - 23) = 1 / 2 ^ (23 - k)"
        using k by (simp add: power_int_def inverse_eq_divide power_one_over nat_diff_distrib')
      then show ?thesis by (simp add: q_def)
    qed
    finally have v: "float_val (nat_to_float False a) = real a" .
    have "float_finite (nat_to_float False a)"
      unfolding r using e255 f23 by (rule float_finite_pack)
    with v show ?thesis by simp
  qed
  then show "float_val (nat_to_float False a) = real a" and "float_finite (nat_to_float False a)"
    by simp_all
qed

subsection \<open>Packing and unpacking\<close>

lemma word_of_nat_no_sign:
  assumes "a < 2 ^ 31"
  shows "\<not> bit (word_of_nat a :: 32 word) 31"
proof -
  have "unat (word_of_nat a :: 32 word) = a"
    using assms by (simp add: unat_of_nat)
  then have "\<not> float_sign (word_of_nat a)"
    using assms by (simp add: float_sign_arith)
  then show ?thesis by (simp add: float_sign_def)
qed

lemma int64_of_small_nat:
  assumes "a < 2 ^ 32"
  shows "int64_to_float (ucast (word_of_nat a :: 32 word)) = nat_to_float False a"
proof -
  have u32: "unat (word_of_nat a :: 32 word) = a"
    using assms by (simp add: unat_of_nat)
  have "unat (ucast (word_of_nat a :: 32 word) :: 64 word) = unat (word_of_nat a :: 32 word)"
    by (simp add: unsigned_ucast_eq take_bit_nat_eq_self unsigned_less [where 'a = nat, of "word_of_nat a :: 32 word", simplified] less_trans [OF unat_lt_32])
  then have u64: "uint (ucast (word_of_nat a :: 32 word) :: 64 word) = int a"
    by (metis of_nat_unat u32)
  have "uint (ucast (word_of_nat a :: 32 word) :: 64 word) < 2 ^ (LENGTH(64) - Suc 0)"
    unfolding u64 using assms by simp
  then have "sint (ucast (word_of_nat a :: 32 word) :: 64 word) = int a"
    unfolding u64 [symmetric] by (rule sint_eq_uint_small)
  then show ?thesis
    by (simp add: int64_to_float_def)
qed

text \<open>
  Packing and unpacking a \<open>C\<close> whose integral part is not negative: \<open>nmax\<close> comes
  back, and \<open>get_C\<close> converts the integral part of \<open>C\<close>.
\<close>

lemma pack_unpack_nonneg:
  assumes "float_to_int32 C = Some (word_of_nat a)" "a < 2 ^ 31"
  shows "\<exists>p. pack_vals C nmax = Some p \<and> get_nmax p = Some nmax
             \<and> get_C p = Some (nat_to_float False a)"
proof -
  define c :: "32 word" where "c = word_of_nat a"
  define p :: "64 word" where "p = push_bit 32 (scast nmax) OR scast c"
  have p: "pack_vals C nmax = Some p"
    by (simp add: pack_vals_def assms(1) p_def c_def)
  have nb: "\<not> bit c 31"
    unfolding c_def using assms(2) by (rule word_of_nat_no_sign)
  have "(ucast (drop_bit 32 p) :: 32 word) = nmax"
    unfolding p_def using nb by (rule packed_high)
  then have hi: "get_nmax p = Some nmax"
    by (simp only: get_nmax_high)
  have "a < 2 ^ 32" using assms(2) by simp
  then have lo: "get_C p = Some (nat_to_float False a)"
    unfolding get_C_low p_def packed_low c_def by (simp only: int64_of_small_nat)
  from p hi lo show ?thesis by blast
qed

lemma float_to_int32_in_range:
  assumes fin: "float_finite C" and lo: "- 1 < float_val C" and hi: "float_val C < 2 ^ 31"
  shows "\<exists>a. float_to_int32 C = Some (word_of_nat a) \<and> a < 2 ^ 31
             \<and> int a = trunc_toward_zero (float_val C)
             \<and> a = (if float_sign C then 0 else float_integral_part C)"
proof -
  define mag where "mag = float_integral_part C"
  have fl: "int mag = \<lfloor>\<bar>float_val C\<bar>\<rfloor>"
    by (simp only: mag_def float_integral_part_floor)
  show ?thesis
  proof (cases "float_sign C")
    case True
    then have "float_val C \<le> 0" by (subst float_val_sign) simp
    with lo have "\<bar>float_val C\<bar> < 1" by simp
    then have "\<lfloor>\<bar>float_val C\<bar>\<rfloor> = 0" by (simp add: floor_eq_iff)
    with fl have m0: "mag = 0" by simp
    then have "float_to_int32 C = Some (word_of_nat 0)"
      using fin True by (simp add: float_to_int32_def Let_def mag_def [symmetric])
    moreover have "int 0 = trunc_toward_zero (float_val C)"
      by (simp only: trunc_toward_zero_abs \<open>\<lfloor>\<bar>float_val C\<bar>\<rfloor> = 0\<close>) simp
    ultimately show ?thesis using True by (intro exI [of _ 0]) simp
  next
    case False
    then have nn: "0 \<le> float_val C" by (subst float_val_sign) simp
    then have "\<lfloor>\<bar>float_val C\<bar>\<rfloor> < 2 ^ 31" using hi by (simp add: floor_less_iff)
    with fl have "int mag < 2 ^ 31" by simp
    then have lt: "mag < 2 ^ 31" by simp
    then have "float_to_int32 C = Some (word_of_nat mag)"
      using fin False by (simp add: float_to_int32_def Let_def mag_def [symmetric])
    moreover have "int mag = trunc_toward_zero (float_val C)"
      using nn fl by (simp add: trunc_toward_zero_abs)
    ultimately show ?thesis using False lt by (intro exI [of _ mag]) (simp add: mag_def)
  qed
qed

subsection \<open>Floats with an integer value\<close>

lemma float_normal_if_large:
  assumes "2 ^ 23 \<le> float_significand x"
  shows "0 < float_exponent x" and "float_significand x = 2 ^ 23 + float_fraction x"
proof -
  show "0 < float_exponent x"
  proof (rule ccontr)
    assume "\<not> 0 < float_exponent x"
    then have "float_significand x = float_fraction x" by (simp add: float_significand_def)
    with assms float_fraction_less [of x] show False by simp
  qed
  then show "float_significand x = 2 ^ 23 + float_fraction x"
    by (rule float_significand_normal)
qed

text \<open>
  A finite \<open>float\<close> with exponent field at least 150 is an integer, and the conversion of
  that integer gives the same pattern back.
\<close>

lemma nat_to_float_integral_large:
  assumes "150 \<le> float_exponent x"
  shows "nat_to_float (float_sign x) (float_integral_part x) = x"
proof -
  define e where "e = float_exponent x"
  define m where "m = float_significand x"
  have epos: "0 < e" using assms by (simp add: e_def)
  then have m: "m = 2 ^ 23 + float_fraction x"
    unfolding m_def e_def by (rule float_significand_normal)
  have lo: "2 ^ 23 \<le> m" by (simp add: m)
  have hi: "m < 2 ^ 24" unfolding m_def by (rule float_significand_less)
  have E: "max 1 e = e" using epos by simp
  have ip: "float_integral_part x = m * 2 ^ (e - 150)"
    using assms by (simp add: float_integral_part_def Let_def m_def e_def)
  have "nat_to_float (float_sign x) (m * 2 ^ (e - 150))
        = float_pack (float_sign x) (150 + (e - 150)) (m - 2 ^ 23)"
    using lo hi by (rule nat_to_float_shifted)
  also have "150 + (e - 150) = e" using assms by (simp add: e_def)
  also have "m - 2 ^ 23 = float_fraction x" by (simp add: m)
  finally show ?thesis
    unfolding ip e_def by (simp only: float_pack_fields)
qed

text \<open>
  A positive \<open>float\<close> whose value is the natural number \<open>n\<close> is what the conversion
  of \<open>n\<close> returns.
\<close>

lemma nat_to_float_of_integral_value:
  assumes val: "float_val x = real n" and pos: "0 < n"
  shows "nat_to_float False n = x"
proof -
  define e where "e = float_exponent x"
  define E where "E = max 1 e"
  define m where "m = float_significand x"
  have sgn: "\<not> float_sign x"
  proof
    assume "float_sign x"
    then have "float_val x \<le> 0" by (subst float_val_sign) simp
    with val pos show False by simp
  qed
  then have "\<bar>float_val x\<bar> = real n"
    using val by (subst (asm) float_val_sign) simp
  then have av: "real m * 2 powi (int E - 150) = real n"
    by (simp only: abs_float_val m_def E_def e_def)
  show ?thesis
  proof (cases "150 \<le> E")
    case True
    then have e150: "150 \<le> float_exponent x" by (simp add: E_def e_def)
    then have Ee: "E = float_exponent x" by (simp add: E_def e_def)
    from av True have "real (m * 2 ^ (E - 150)) = real n"
      by (simp add: two_powi_up)
    then have "m * 2 ^ (E - 150) = n" by (simp only: of_nat_eq_iff)
    then have "float_integral_part x = n"
      using e150 by (simp add: float_integral_part_def Let_def m_def Ee)
    with nat_to_float_integral_large [OF e150] sgn show ?thesis by simp
  next
    case False
    define j where "j = 150 - E"
    have jE: "E = 150 - j" "j \<le> 149" "0 < j"
      using False by (simp_all add: j_def E_def)
    from av False have "real m / 2 ^ j = real n"
      by (simp add: two_powi_down j_def)
    then have "real m = real (n * 2 ^ j)"
      by (simp add: field_simps)
    then have mn: "m = n * 2 ^ j" by (simp only: of_nat_eq_iff)
    have mhi: "m < 2 ^ 24" unfolding m_def by (rule float_significand_less)
    have "(2::nat) ^ j \<le> n * 2 ^ j" using pos by simp
    also have "\<dots> < 2 ^ 24" using mn mhi by simp
    finally have "(2::nat) ^ j < 2 ^ 24" .
    then have j24: "j < 24" by (simp only: power_strict_increasing_iff rel_simps)
    have epos: "0 < e"
    proof (rule ccontr)
      assume "\<not> 0 < e"
      then have "E = 1" by (simp add: E_def)
      with jE(1) j24 show False by simp
    qed
    then have Ee: "E = e" by (simp add: E_def)
    have m: "m = 2 ^ 23 + float_fraction x"
      unfolding m_def using epos unfolding e_def by (rule float_significand_normal)
    then have mlo: "2 ^ 23 \<le> m" by simp
    have nlo: "2 ^ (23 - j) \<le> n"
    proof (rule ccontr)
      assume "\<not> 2 ^ (23 - j) \<le> n"
      then have "n < 2 ^ (23 - j)" by simp
      then have "n * 2 ^ j < 2 ^ (23 - j) * 2 ^ j"
        by (intro mult_strict_right_mono) simp_all
      also have "\<dots> = 2 ^ 23" using j24 by (simp add: power_add [symmetric])
      finally show False using mlo mn by simp
    qed
    have nhi: "n < 2 ^ Suc (23 - j)"
    proof (rule ccontr)
      assume "\<not> n < 2 ^ Suc (23 - j)"
      then have le: "2 ^ Suc (23 - j) \<le> n" by simp
      have "(2::nat) ^ 24 = 2 ^ Suc (23 - j) * 2 ^ j"
        using j24 by (simp add: power_add [symmetric] del: power_Suc)
      also have "\<dots> \<le> n * 2 ^ j"
        using le by (intro mult_right_mono) simp_all
      finally show False using mhi mn by simp
    qed
    have bw: "bit_width n = Suc (23 - j)" using nlo nhi by (rule bit_width_unique)
    have "n < 2 ^ 24"
    proof -
      have "(2::nat) ^ Suc (23 - j) \<le> 2 ^ 24" by (intro power_increasing) simp_all
      with nhi show ?thesis by simp
    qed
    with pos have "nat_to_float False n
        = float_pack False (127 + (23 - j)) (n * 2 ^ (23 - (23 - j)) - 2 ^ 23)"
      by (rule nat_to_float_small) (simp add: bw)
    also have "127 + (23 - j) = e" using jE(1) j24 Ee by simp
    also have "23 - (23 - j) = j" using j24 by simp
    also have "n * 2 ^ j - 2 ^ 23 = float_fraction x" using mn m by simp
    finally have "nat_to_float False n = float_pack (float_sign x) (float_exponent x) (float_fraction x)"
      using sgn by (simp add: e_def)
    then show ?thesis by (simp only: float_pack_fields)
  qed
qed

text \<open>The two patterns of value zero.\<close>

lemma float_zero_patterns:
  assumes "float_finite x" "float_val x = 0"
  shows "x = 0 \<or> x = 0x80000000"
proof -
  have "2 powi (int (max 1 (float_exponent x)) - 150) \<noteq> (0::real)"
    by simp
  with assms(2) have "float_significand x = 0"
    by (simp add: float_val_def split: if_splits)
  then have e: "float_exponent x = 0" and f: "float_fraction x = 0"
    by (simp_all add: float_significand_def split: if_splits)
  have "x = float_pack (float_sign x) 0 0"
    using float_pack_fields [of x] by (simp only: e f)
  then show ?thesis
    by (cases "float_sign x") (simp_all add: float_pack_def)
qed

lemma float_eq_zero: "float_eq 0 0 \<and> float_eq 0 0x80000000"
  by (simp add: float_eq_def float_is_nan_def float_exponent_def float_fraction_def)

lemma float_eq_refl: "float_finite x \<Longrightarrow> float_eq x x"
  by (simp add: float_eq_def float_is_nan_def float_finite_def)

subsection \<open>The rounding of the conversion to \<open>float\<close>\<close>

text \<open>
  The significand and exponent chosen for \<open>a\<close> stand for a number within half a unit of the
  last kept digit of \<open>a\<close>.
\<close>

lemma round_significand_near:
  assumes lo: "2 ^ k \<le> a" and hi: "a < 2 ^ Suc k"
  obtains q e where "round_significand a k = (q, e)" "2 ^ 23 \<le> q" "q < 2 ^ 24"
    "0 < e" "e \<le> 128 + k"
    "2 * \<bar>real q * 2 powi (int e - 150) - real a\<bar> \<le> 2 ^ (k - 23)"
proof (cases "k \<le> 23")
  case True
  define q where "q = a * 2 ^ (23 - k)"
  have r: "round_significand a k = (q, 127 + k)"
    using True by (simp add: round_significand_def q_def)
  have qlo: "2 ^ 23 \<le> q"
  proof -
    have "(2::nat) ^ 23 = 2 ^ k * 2 ^ (23 - k)"
      using True by (simp add: power_add [symmetric])
    also have "\<dots> \<le> a * 2 ^ (23 - k)"
      using lo by (rule mult_right_mono) simp
    finally show ?thesis by (simp only: q_def)
  qed
  have qhi: "q < 2 ^ 24"
  proof -
    have "a * 2 ^ (23 - k) < 2 ^ Suc k * 2 ^ (23 - k)"
      using hi by (intro mult_strict_right_mono) simp_all
    also have "\<dots> = 2 ^ 24"
      using True by (simp add: power_add [symmetric] del: power_Suc)
    finally show ?thesis by (simp only: q_def)
  qed
  have "(2::real) powi (int (127 + k) - 150) = 1 / 2 ^ (23 - k)"
    using True by (simp add: power_int_def inverse_eq_divide power_one_over nat_diff_distrib')
  then have "real q * 2 powi (int (127 + k) - 150) = real a"
    by (simp add: q_def)
  then have "2 * \<bar>real q * 2 powi (int (127 + k) - 150) - real a\<bar> \<le> 2 ^ (k - 23)"
    by simp
  with r qlo qhi show ?thesis by (intro that [of q "127 + k"]) simp_all
next
  case False
  define sh where "sh = k - 23"
  define q0 where "q0 = a div 2 ^ sh"
  define r where "r = a mod 2 ^ sh"
  define half :: nat where "half = 2 ^ (sh - 1)"
  define up where "up \<longleftrightarrow> half < r \<or> (r = half \<and> odd q0)"
  define q1 where "q1 = (if up then q0 + 1 else q0)"
  have sh: "0 < sh" "k = 23 + sh" using False by (simp_all add: sh_def)
  have two_half: "2 * half = 2 ^ sh"
    using sh(1) by (cases sh) (simp_all add: half_def)
  have a: "a = q0 * 2 ^ sh + r"
    by (simp only: q0_def r_def div_mult_mod_eq)
  have rlt: "r < 2 ^ sh" by (simp add: r_def)
  have q0lo: "2 ^ 23 \<le> q0"
  proof -
    have "(2::nat) ^ 23 * 2 ^ sh \<le> a" using lo by (simp add: sh(2) power_add)
    then show ?thesis
      unfolding q0_def by (simp add: less_eq_div_iff_mult_less_eq)
  qed
  have q0hi: "q0 < 2 ^ 24"
  proof -
    have "a < 2 ^ 24 * 2 ^ sh" using hi by (simp add: sh(2) power_add)
    then show ?thesis
      unfolding q0_def by (simp add: less_mult_imp_div_less)
  qed
  have q1lo: "2 ^ 23 \<le> q1" using q0lo by (simp add: q1_def)
  have q1hi: "q1 \<le> 2 ^ 24" using q0hi by (simp add: q1_def)
  have shr: "(2::real) powi (int (127 + k) - 150) = 2 ^ sh"
    by (simp add: sh(2) power_int_def nat_add_distrib)
  have near: "2 * \<bar>real q1 * 2 ^ sh - real a\<bar> \<le> 2 ^ sh"
  proof (cases up)
    case True
    then have "half \<le> r" by (auto simp add: up_def)
    then have "2 ^ sh \<le> 2 * r" using two_half by simp
    then have "real (2 ^ sh) \<le> real (2 * r)" by (simp only: of_nat_le_iff)
    then have h: "(2::real) ^ sh \<le> 2 * real r" by simp
    have "real r < 2 ^ sh" using rlt by (metis of_nat_less_iff of_nat_numeral of_nat_power)
    moreover have "real q1 * 2 ^ sh - real a = 2 ^ sh - real r"
      using True by (simp add: q1_def a algebra_simps)
    ultimately show ?thesis using h by simp
  next
    case False
    then have "r \<le> half" by (auto simp add: up_def)
    then have "2 * r \<le> 2 ^ sh" using two_half by simp
    then have "real (2 * r) \<le> real (2 ^ sh)" by (simp only: of_nat_le_iff)
    then have h: "2 * real r \<le> (2::real) ^ sh" by simp
    have "real q1 * 2 ^ sh - real a = - real r"
      using False by (simp add: q1_def a algebra_simps)
    then show ?thesis using h by simp
  qed
  have rs: "round_significand a k
            = (if q1 = 2 ^ 24 then (2 ^ 23, 127 + k + 1) else (q1, 127 + k))"
    unfolding round_significand_def Let_def q1_def up_def half_def r_def q0_def sh_def
    using False by simp
  show ?thesis
  proof (cases "q1 = 2 ^ 24")
    case True
    have "(2::real) powi (int (127 + k + 1) - 150) = 2 * 2 ^ sh"
      by (simp add: sh(2) power_int_def nat_add_distrib)
    then have "real (2 ^ 23) * 2 powi (int (127 + k + 1) - 150) = real q1 * 2 ^ sh"
      using True by simp
    with near have "2 * \<bar>real (2 ^ 23) * 2 powi (int (127 + k + 1) - 150) - real a\<bar> \<le> 2 ^ (k - 23)"
      by (simp only: sh_def)
    with rs True show ?thesis by (intro that [of "2 ^ 23" "127 + k + 1"]) simp_all
  next
    case False
    with q1hi have q1lt: "q1 < 2 ^ 24" by simp
    from near shr have "2 * \<bar>real q1 * 2 powi (int (127 + k) - 150) - real a\<bar> \<le> 2 ^ (k - 23)"
      by (simp only: sh_def)
    with rs False q1lo q1lt show ?thesis by (intro that [of q1 "127 + k"]) simp_all
  qed
qed

text \<open>
  The conversion of a positive number below \<open>2 ^ 64\<close> is a finite \<open>float\<close> within half
  a unit of the last kept digit.
\<close>

lemma nat_to_float_near:
  assumes "a < 2 ^ 64"
  shows "float_finite (nat_to_float False a)"
    and "2 * \<bar>float_val (nat_to_float False a) - real a\<bar> \<le> 2 ^ (bit_width a - 24)"
proof -
  have "float_finite (nat_to_float False a)
        \<and> 2 * \<bar>float_val (nat_to_float False a) - real a\<bar> \<le> 2 ^ (bit_width a - 24)"
  proof (cases "a = 0")
    case True
    then show ?thesis
      by (simp add: nat_to_float_def float_val_def float_finite_def float_exponent_def
          float_significand_def float_fraction_def)
  next
    case False
    then have pos: "0 < a" by simp
    define k where "k = bit_width a - 1"
    have bw: "bit_width a = Suc k"
      using pos unfolding k_def by (subst (1 2) bit_width.simps) simp
    from bit_width_bounds [OF pos]
    have lo: "2 ^ k \<le> a" and hi: "a < 2 ^ Suc k"
      unfolding k_def [symmetric] by (simp_all only: bw)
    have "(2::nat) ^ k < 2 ^ 64" using lo assms by (rule le_less_trans)
    then have k64: "k < 64" by (simp only: power_strict_increasing_iff rel_simps)
    from lo hi obtain q e where rs: "round_significand a k = (q, e)"
      and q: "2 ^ 23 \<le> q" "q < 2 ^ 24" and e: "0 < e" "e \<le> 128 + k"
      and near: "2 * \<bar>real q * 2 powi (int e - 150) - real a\<bar> \<le> 2 ^ (k - 23)"
      by (rule round_significand_near)
    have r: "nat_to_float False a = float_pack False e (q - 2 ^ 23)"
      unfolding nat_to_float_def k_def [symmetric] rs using False by simp
    have e255: "e < 255" using e(2) k64 by simp
    then have e8: "e < 2 ^ 8" by simp
    have f23: "q - 2 ^ 23 < 2 ^ 23" using q(2) by simp
    have fin: "float_finite (nat_to_float False a)"
      unfolding r using e255 f23 by (rule float_finite_pack)
    have "float_val (nat_to_float False a) = real q * 2 powi (int e - 150)"
      unfolding r float_val_pack [OF e8 f23] using q(1) e(1) by (simp add: max_def)
    with near have "2 * \<bar>float_val (nat_to_float False a) - real a\<bar> \<le> 2 ^ (k - 23)"
      by simp
    moreover have "k - 23 = bit_width a - 24" by (simp add: bw)
    ultimately show ?thesis using fin by simp
  qed
  then show "float_finite (nat_to_float False a)"
    and "2 * \<bar>float_val (nat_to_float False a) - real a\<bar> \<le> 2 ^ (bit_width a - 24)"
    by simp_all
qed

subsection \<open>The round trip through the packed word\<close>

lemmas float_eval =
  float_to_int32_def float_finite_def float_sign_def float_exponent_def float_fraction_def
  float_significand_def float_integral_part_def float_val_def float_is_nan_def float_eq_def

lemmas convert_eval =
  int64_to_float_def nat_to_float_def round_significand_def bit_width.simps float_pack_def Let_def

lemma float_val_large:
  assumes "150 \<le> float_exponent x" "\<not> float_sign x"
  shows "float_val x = real (float_integral_part x)"
proof -
  have "max 1 (float_exponent x) = float_exponent x" using assms(1) by simp
  then have "\<bar>float_val x\<bar> = real (float_significand x) * 2 ^ (float_exponent x - 150)"
    using assms(1) by (simp only: abs_float_val two_powi_up)
  moreover have "float_integral_part x = float_significand x * 2 ^ (float_exponent x - 150)"
    using assms(1) by (simp add: float_integral_part_def Let_def)
  ultimately have "\<bar>float_val x\<bar> = real (float_integral_part x)" by simp
  with assms(2) show ?thesis by (subst float_val_sign) simp
qed

lemma float_integral_part_small:
  assumes "float_exponent x < 150"
  shows "float_integral_part x < 2 ^ 24"
proof -
  have "float_integral_part x = float_significand x div 2 ^ (150 - max 1 (float_exponent x))"
    using assms by (simp add: float_integral_part_def Let_def max_def)
  also have "\<dots> \<le> float_significand x" by (rule div_le_dividend)
  also have "\<dots> < 2 ^ 24" by (rule float_significand_less)
  finally show ?thesis .
qed

lemma uint_high_half: "uint (ucast (drop_bit 32 (v :: 64 word)) :: 32 word) = uint v div 2 ^ 32"
proof -
  have lt: "uint v div 2 ^ 32 < 2 ^ 32"
    using uint_lt2p [of v] by simp
  have "uint (ucast (drop_bit 32 v) :: 32 word) = take_bit 32 (uint (drop_bit 32 v))"
    by (simp add: unsigned_ucast_eq)
  also have "uint (drop_bit 32 v) = drop_bit 32 (uint v)"
    by (rule uint_drop_bit)
  also have "\<dots> = uint v div 2 ^ 32"
    by (rule drop_bit_eq_div)
  also have "take_bit 32 (uint v div 2 ^ 32) = uint v div 2 ^ 32"
    using lt by (intro take_bit_int_eq_self) (simp_all add: pos_imp_zdiv_nonneg_iff)
  finally show ?thesis .
qed

lemma int64_to_float_low_half:
  "int64_to_float (take_bit 32 (v :: 64 word)) = nat_to_float False (unat v mod 2 ^ 32)"
proof -
  have u: "uint (take_bit 32 v) = uint v mod 2 ^ 32"
    using uint_take_drop [of 32 0 v] by simp
  have "uint v mod 2 ^ 32 < 2 ^ 32" by simp
  then have "uint (take_bit 32 v) < 2 ^ (LENGTH(64) - Suc 0)"
    unfolding u by simp
  then have s: "sint (take_bit 32 v) = uint v mod 2 ^ 32"
    unfolding u [symmetric] by (rule sint_eq_uint_small)
  have "nat (uint v mod 2 ^ 32) = unat v mod 2 ^ 32"
    by (simp add: nat_mod_distrib)
  moreover have "\<not> uint v mod 2 ^ 32 < 0"
    by (simp add: not_less)
  ultimately show ?thesis
    unfolding int64_to_float_def s by simp
qed

text \<open>
  C1. Packing and then unpacking does not recover every \<open>float\<close> \<open>C\<close>: both casts
  convert the number and do not copy the pattern, so the fractional part of \<open>C\<close> is lost.
  What holds: for every \<open>nmax\<close> and every finite \<open>C\<close> with \<open>-1 < C < 2^31\<close>,
  \<open>get_nmax(pack_vals(C, nmax))\<close> is \<open>nmax\<close>, and \<open>get_C(pack_vals(C, nmax))\<close> is the
  finite \<open>float\<close> whose value is \<open>C\<close> truncated toward zero.
\<close>

theorem pack_unpack_truncates:
  assumes "float_finite C" "- 1 < float_val C" "float_val C < 2 ^ 31"
  shows "\<exists>p r. pack_vals C nmax = Some p \<and> get_nmax p = Some nmax \<and> get_C p = Some r
               \<and> float_finite r
               \<and> float_val r = of_int (trunc_toward_zero (float_val C))"
proof -
  from float_to_int32_in_range [OF assms] obtain a
    where c: "float_to_int32 C = Some (word_of_nat a)" and a31: "a < 2 ^ 31"
      and tr: "int a = trunc_toward_zero (float_val C)"
      and a: "a = (if float_sign C then 0 else float_integral_part C)" by blast
  from pack_unpack_nonneg [OF c a31, of nmax] obtain p
    where p: "pack_vals C nmax = Some p" "get_nmax p = Some nmax"
      "get_C p = Some (nat_to_float False a)" by blast
  have "float_finite (nat_to_float False a) \<and> float_val (nat_to_float False a) = real a"
  proof (cases "a < 2 ^ 24")
    case True
    then show ?thesis by (simp add: float_val_nat_to_float_small)
  next
    case False
    with a have sgn: "\<not> float_sign C" and ip: "a = float_integral_part C"
      by (simp_all split: if_splits)
    have e: "150 \<le> float_exponent C"
    proof (rule ccontr)
      assume "\<not> 150 \<le> float_exponent C"
      then have "float_integral_part C < 2 ^ 24" by (intro float_integral_part_small) simp
      with False ip show False by simp
    qed
    from nat_to_float_integral_large [OF e] sgn have "nat_to_float False a = C"
      by (simp add: ip)
    with float_val_large [OF e sgn] assms(1) show ?thesis by (simp add: ip)
  qed
  with p tr show ?thesis by (metis of_int_of_nat_eq)
qed

theorem pack_unpack_truncates_witness:
  "float_finite 0x40490FDB \<and> - 1 < float_val 0x40490FDB \<and> float_val 0x40490FDB < 2 ^ 31
   \<and> pack_vals 0x40490FDB (- 7) = Some 0xFFFFFFF900000003
   \<and> get_nmax 0xFFFFFFF900000003 = Some (- 7)
   \<and> get_C 0xFFFFFFF900000003 = Some 0x40400000
   \<and> float_val 0x40400000 = of_int (trunc_toward_zero (float_val 0x40490FDB))"
proof -
  have h1: "float_finite 0x40490FDB" by (simp add: float_eval)
  have h2: "- 1 < float_val 0x40490FDB" by (simp add: float_eval)
  have h3: "float_val 0x40490FDB < 2 ^ 31" by (simp add: float_eval)
  have e1: "pack_vals 0x40490FDB (- 7) = Some 0xFFFFFFF900000003"
    by (simp add: pack_vals_def float_eval)
  from pack_unpack_truncates [OF h1 h2 h3, of "- 7"] obtain p r
    where "pack_vals 0x40490FDB (- 7) = Some p" and n: "get_nmax p = Some (- 7)"
      and c: "get_C p = Some r"
      and v: "float_val r = of_int (trunc_toward_zero (float_val 0x40490FDB))" by blast
  with e1 have p: "p = 0xFFFFFFF900000003" by simp
  have "get_C 0xFFFFFFF900000003 = Some 0x40400000"
    by (simp add: get_C_def pick_bits_def convert_eval)
  with c p have "r = 0x40400000" by simp
  with h1 h2 h3 e1 n c v p show ?thesis by simp
qed

theorem pack_unpack_half_counterexample:
  "pack_vals 0x3F000000 0 = Some 0 \<and> get_C 0 = Some 0 \<and> \<not> float_eq 0 0x3F000000"
  by (simp add: pack_vals_def get_C_def pick_bits_def float_eval convert_eval)

text \<open>
  C10. For every \<open>nmax\<close> and every \<open>float\<close> \<open>C\<close> whose value is a natural number below
  \<open>2^31\<close>, \<open>get_nmax(pack_vals(C, nmax))\<close> is \<open>nmax\<close> and \<open>get_C(pack_vals(C, nmax)) == C\<close>
  holds; the result is even the pattern of \<open>C\<close>, unless \<open>C\<close> is the negative zero, which
  comes back as the positive zero.
\<close>

theorem pack_unpack_integral:
  assumes "float_finite C" "float_val C = real n" "n < 2 ^ 31"
  shows "\<exists>p r. pack_vals C nmax = Some p \<and> get_nmax p = Some nmax \<and> get_C p = Some r
               \<and> float_eq r C \<and> (C \<noteq> 0x80000000 \<longrightarrow> r = C)"
proof -
  have lo: "- 1 < float_val C" and hi: "float_val C < 2 ^ 31"
    using assms(2,3) by simp_all
  from float_to_int32_in_range [OF assms(1) lo hi] obtain a
    where c: "float_to_int32 C = Some (word_of_nat a)" and a31: "a < 2 ^ 31"
      and tr: "int a = trunc_toward_zero (float_val C)" by blast
  have "a = n" using tr by (simp add: assms(2) trunc_toward_zero_def)
  with pack_unpack_nonneg [OF c a31, of nmax] obtain p
    where p: "pack_vals C nmax = Some p" "get_nmax p = Some nmax"
      "get_C p = Some (nat_to_float False n)" by blast
  have "float_eq (nat_to_float False n) C \<and> (C \<noteq> 0x80000000 \<longrightarrow> nat_to_float False n = C)"
  proof (cases "n = 0")
    case True
    then have "float_val C = 0" using assms(2) by simp
    with assms(1) have "C = 0 \<or> C = 0x80000000" by (rule float_zero_patterns)
    moreover have "nat_to_float False n = 0" using True by (simp add: nat_to_float_def)
    ultimately show ?thesis using float_eq_zero by auto
  next
    case False
    then have "nat_to_float False n = C"
      using assms(2) by (intro nat_to_float_of_integral_value) simp_all
    with assms(1) show ?thesis by (simp add: float_eq_refl)
  qed
  with p show ?thesis by blast
qed

theorem pack_unpack_integral_witness:
  "float_finite 0x4B800001 \<and> float_val 0x4B800001 = real 16777218 \<and> (16777218 :: nat) < 2 ^ 31
   \<and> pack_vals 0x4B800001 (- 7) = Some 0xFFFFFFF901000002
   \<and> get_nmax 0xFFFFFFF901000002 = Some (- 7)
   \<and> get_C 0xFFFFFFF901000002 = Some 0x4B800001"
  using pack_unpack_integral [of "0x4B800001" 16777218 "- 7"]
  by (simp add: pack_vals_def get_nmax_def get_C_def pick_bits_def float_eval convert_eval)

text \<open>
  C2. The word returned by \<open>pack_vals(C, nmax)\<close> should hold \<open>nmax\<close> in its high 32 bits
  whatever \<open>C\<close> is. At \<open>C = -1.0\<close> and \<open>nmax = 0\<close> it does not: the sign extension of
  \<open>(int32_t)C\<close> sets all high bits, and \<open>get_nmax\<close> reads \<open>-1\<close>.
\<close>

theorem pack_vals_negative_C_clobbers_nmax:
  "pack_vals 0xBF800000 0 = Some 0xFFFFFFFFFFFFFFFF
   \<and> drop_bit 32 (0xFFFFFFFFFFFFFFFF :: 64 word) = 0xFFFFFFFF
   \<and> get_nmax 0xFFFFFFFFFFFFFFFF = Some (- 1)"
  by (simp add: pack_vals_def get_nmax_def pick_bits_def float_eval)

text \<open>
  C3. \<open>get_nmax(v)\<close> returns the high 32 bits of \<open>v\<close> as an \<open>int32_t\<close>. \<open>get_C(v)\<close> does
  not read the low 32 bits as the pattern of a \<open>float\<close>: it converts the unsigned integer
  they hold, \<open>v mod 2^32\<close>, to \<open>float\<close>. The result is finite and within half a unit of
  the last of the 24 leading digits of that integer, and it is that integer when it is
  below \<open>2^24\<close>.
\<close>

theorem get_C_get_nmax_spec:
  "(\<exists>r. get_nmax v = Some r \<and> r = ucast (drop_bit 32 v) \<and> uint r = uint v div 2 ^ 32)
   \<and> (\<exists>c. get_C v = Some c \<and> c = nat_to_float False (unat v mod 2 ^ 32)
          \<and> float_finite c
          \<and> 2 * \<bar>float_val c - real (unat v mod 2 ^ 32)\<bar>
              \<le> 2 ^ (bit_width (unat v mod 2 ^ 32) - 24)
          \<and> (unat v mod 2 ^ 32 < 2 ^ 24 \<longrightarrow> float_val c = real (unat v mod 2 ^ 32)))"
proof -
  define n where "n = unat v mod 2 ^ 32"
  have "n < 2 ^ 32" by (simp add: n_def)
  then have n64: "n < 2 ^ 64" by simp
  have c: "get_C v = Some (nat_to_float False n)"
    by (simp only: get_C_low int64_to_float_low_half n_def)
  have r: "get_nmax v = Some (ucast (drop_bit 32 v))"
    by (rule get_nmax_high)
  from c r nat_to_float_near [OF n64] uint_high_half [of v]
    float_val_nat_to_float_small(1) [of n]
  show ?thesis
    unfolding n_def [symmetric] by simp
qed

theorem get_C_get_nmax_spec_witness:
  "unat (0xFFFFFFF900000003 :: 64 word) mod 2 ^ 32 < 2 ^ 24
   \<and> get_nmax 0xFFFFFFF900000003 = Some (- 7)
   \<and> get_C 0xFFFFFFF900000003 = Some 0x40400000
   \<and> float_val 0x40400000 = real (unat (0xFFFFFFF900000003 :: 64 word) mod 2 ^ 32)"
proof -
  have h: "unat (0xFFFFFFF900000003 :: 64 word) mod 2 ^ 32 < 2 ^ 24" by simp
  have c: "get_C 0xFFFFFFF900000003 = Some 0x40400000"
    by (simp add: get_C_def pick_bits_def convert_eval)
  have n: "get_nmax 0xFFFFFFF900000003 = Some (- 7)"
    by (simp add: get_nmax_def pick_bits_def)
  from get_C_get_nmax_spec [of "0xFFFFFFF900000003"] h c
  have "float_val 0x40400000 = real (unat (0xFFFFFFF900000003 :: 64 word) mod 2 ^ 32)"
    by (metis option.inject)
  with h c n show ?thesis by blast
qed

theorem get_C_reinterpret_counterexample:
  "get_C 0x3F800000 = Some 0x4E7E0000
   \<and> (ucast (take_bit 32 (0x3F800000 :: 64 word)) :: 32 word) = 0x3F800000
   \<and> \<not> float_eq 0x4E7E0000 0x3F800000"
  by (simp add: get_C_def pick_bits_def float_eval convert_eval)

subsection \<open>The deque\<close>

lemma deque_step_conserves:
  assumes "deque_step q op = (r, q')"
  shows "mset (pushed [(op, r)]) + mset (dq_buffer q)
         = mset (popped [(op, r)]) + mset (stolen [(op, r)]) + mset (dq_buffer q')"
proof (cases op)
  case (Push_bottom x)
  with assms show ?thesis by (auto split: if_splits)
next
  case Pop_bottom
  show ?thesis
  proof (cases "dq_buffer q = []")
    case True
    with assms Pop_bottom show ?thesis by auto
  next
    case False
    then have "mset (dq_buffer q) = mset (butlast (dq_buffer q)) + {#last (dq_buffer q)#}"
      by (metis append_butlast_last_id mset.simps(1,2) mset_append union_commute add_mset_add_single)
    with assms Pop_bottom False show ?thesis by auto
  qed
next
  case (Steal won)
  show ?thesis
  proof (cases "dq_buffer q = [] \<or> \<not> won")
    case True
    with assms Steal show ?thesis by auto
  next
    case False
    then have "mset (dq_buffer q) = {#hd (dq_buffer q)#} + mset (tl (dq_buffer q))"
      by (cases "dq_buffer q") simp_all
    with assms Steal False show ?thesis by auto
  qed
next
  case Mark_dead
  with assms show ?thesis by auto
qed

lemma pushed_Cons: "pushed (e # es) = pushed [e] @ pushed es"
  by (cases "(e # es)" rule: pushed.cases) auto

lemma popped_Cons: "popped (e # es) = popped [e] @ popped es"
  by (cases "(e # es)" rule: popped.cases) auto

lemma stolen_Cons: "stolen (e # es) = stolen [e] @ stolen es"
  by (cases "(e # es)" rule: stolen.cases) auto

lemma deque_run_length: "length (fst (deque_run q ops)) = length ops"
  by (induction ops arbitrary: q) (auto simp: split_beta Let_def)

lemma deque_run_conserves:
  "mset (pushed (zip ops (fst (deque_run q ops)))) + mset (dq_buffer q)
   = mset (popped (zip ops (fst (deque_run q ops))))
     + mset (stolen (zip ops (fst (deque_run q ops))))
     + mset (dq_buffer (snd (deque_run q ops)))"
proof (induction ops arbitrary: q)
  case Nil
  then show ?case by simp
next
  case (Cons op ops)
  obtain r q' where st: "deque_step q op = (r, q')" by (cases "deque_step q op")
  define es where "es = zip ops (fst (deque_run q' ops))"
  have z: "zip (op # ops) (fst (deque_run q (op # ops))) = (op, r) # es"
    by (simp add: st split_beta es_def)
  have e: "snd (deque_run q (op # ops)) = snd (deque_run q' ops)"
    by (simp add: st split_beta)
  from Cons.IH [of q'] have ih:
    "mset (pushed es) + mset (dq_buffer q')
     = mset (popped es) + mset (stolen es) + mset (dq_buffer (snd (deque_run q' ops)))"
    by (simp only: es_def)
  have "mset (pushed ((op, r) # es)) + mset (dq_buffer q)
        = mset (pushed es) + (mset (pushed [(op, r)]) + mset (dq_buffer q))"
    by (subst pushed_Cons) simp
  also have "\<dots> = mset (pushed es)
      + (mset (popped [(op, r)]) + mset (stolen [(op, r)]) + mset (dq_buffer q'))"
    by (simp only: deque_step_conserves [OF st])
  also have "\<dots> = mset (popped [(op, r)]) + mset (stolen [(op, r)])
      + (mset (pushed es) + mset (dq_buffer q'))"
    by simp
  also have "\<dots> = mset (popped [(op, r)]) + mset (stolen [(op, r)])
      + (mset (popped es) + mset (stolen es) + mset (dq_buffer (snd (deque_run q' ops))))"
    by (simp only: ih)
  also have "\<dots> = mset (popped ((op, r) # es)) + mset (stolen ((op, r) # es))
      + mset (dq_buffer (snd (deque_run q' ops)))"
    by (subst popped_Cons, subst stolen_Cons) simp
  finally show ?case
    by (simp only: z e)
qed

lemma deque_step_indices:
  assumes "deque_step q op = (r, q')" "dq_top q + length (dq_buffer q) = dq_bottom q"
  shows "dq_top q' + length (dq_buffer q') = dq_bottom q'"
  using assms by (cases op) (auto split: if_splits simp: neq_Nil_conv)

text \<open>
  C7. For every sequence of \<open>push_bottom\<close>, \<open>pop_bottom\<close>, \<open>steal\<close> (and \<open>mark_dead\<close>)
  operations on a deque that starts empty, the subtasks pushed are, as a multiset, the
  ones returned by \<open>pop_bottom\<close> plus the ones returned by \<open>steal\<close> plus the ones still
  in the deque: each pushed subtask is returned exactly once, by one of the two, or is
  still pending; none is lost and none is returned twice.
\<close>

theorem deque_no_loss_no_duplication:
  "mset (pushed (zip ops (fst (deque_run (empty_deque n) ops))))
   = mset (popped (zip ops (fst (deque_run (empty_deque n) ops))))
     + mset (stolen (zip ops (fst (deque_run (empty_deque n) ops))))
     + mset (dq_buffer (snd (deque_run (empty_deque n) ops)))"
  using deque_run_conserves [of ops "empty_deque n"] by (simp add: empty_deque_def)

theorem deque_no_loss_no_duplication_witness:
  "fst (deque_run (empty_deque 2)
      [Push_bottom (1::nat), Push_bottom 2, Steal False, Push_bottom 3, Steal True, Mark_dead,
       Push_bottom 4, Pop_bottom, Pop_bottom])
   = [Pushed, Pushed, Nothing, Pushed, Taken 1, Nothing, Shutdown, Taken 3, Taken 2]
   \<and> mset [1, 2, 3 :: nat] = mset [3, 2] + mset [1] + mset []"
  using deque_no_loss_no_duplication
    [of "[Push_bottom (1::nat), Push_bottom 2, Steal False, Push_bottom 3, Steal True, Mark_dead,
          Push_bottom 4, Pop_bottom, Pop_bottom]" 2]
  by (simp add: empty_deque_def)

end
